theory Spec2Isabelle
  imports Main "HOL-Library.AList"
begin

section \<open>Python values used as lock items\<close>

text \<open>
  The guard accepts any Python object as a lock item and uses it as a dictionary key.
  The values below are the ones callers use (attribute names, small tuples) together
  with one unhashable kind, the list. On these values Python's \<open>==\<close> is structural
  equality, and \<open>hash\<close> raises \<open>TypeError\<close> exactly on a list and on a tuple that
  holds an unhashable value.
\<close>

datatype pyobj =
    PyNone
  | PyInt int
  | PyStr string
  | PyTuple "pyobj list"
  | PyList "pyobj list"

fun hashable :: "pyobj \<Rightarrow> bool" where
  "hashable PyNone = True"
| "hashable (PyInt i) = True"
| "hashable (PyStr s) = True"
| "hashable (PyTuple xs) = list_all hashable xs"
| "hashable (PyList xs) = False"

datatype error =
    TypeError
  | KeyError
  | Raised string

text \<open>
  \<open>TypeError\<close> is what hashing an unhashable key raises, \<open>KeyError\<close> what \<open>del d[k]\<close>
  raises on a missing key, and \<open>Raised name\<close> stands for any exception of the caller's
  code inside a guarded block.
\<close>

section \<open>The \<open>defaultdict(int)\<close> behind \<open>locked_items\<close>\<close>

text \<open>
  A dictionary is an association list in insertion order: a new key goes to the end,
  a stored key keeps its place. Every access hashes the key first.
\<close>

type_synonym pydict = "(pyobj \<times> int) list"

text \<open>
  \<open>dd_count\<close> is a reading aid, not an operation of the dictionary: the count
  stored for a key, and 0 for a key that is not stored.
\<close>

definition dd_count :: "pydict \<Rightarrow> pyobj \<Rightarrow> int" where
  "dd_count d k = (case map_of d k of None \<Rightarrow> 0 | Some c \<Rightarrow> c)"

definition dd_contains :: "pydict \<Rightarrow> pyobj \<Rightarrow> (error + bool) \<times> pydict" where
  \<comment> \<open>\<open>k in d\<close>: a lookup only; \<open>__missing__\<close> is not called.\<close>
  "dd_contains d k =
     (if \<not> hashable k then (Inl TypeError, d) else (Inr (k \<in> fst ` set d), d))"

definition dd_getitem :: "pydict \<Rightarrow> pyobj \<Rightarrow> (error + int) \<times> pydict" where
  \<comment> \<open>\<open>d[k]\<close>: a missing key is stored with \<open>int() = 0\<close> and 0 is returned.\<close>
  "dd_getitem d k =
     (if \<not> hashable k then (Inl TypeError, d)
      else case map_of d k of
             Some c \<Rightarrow> (Inr c, d)
           | None \<Rightarrow> (Inr 0, d @ [(k, 0)]))"

definition dd_setitem :: "pydict \<Rightarrow> pyobj \<Rightarrow> int \<Rightarrow> (error + unit) \<times> pydict" where
  "dd_setitem d k v =
     (if \<not> hashable k then (Inl TypeError, d) else (Inr (), AList.update k v d))"

definition dd_delitem :: "pydict \<Rightarrow> pyobj \<Rightarrow> (error + unit) \<times> pydict" where
  "dd_delitem d k =
     (if \<not> hashable k then (Inl TypeError, d)
      else if k \<in> fst ` set d then (Inr (), AList.delete k d)
      else (Inl KeyError, d))"

definition dd_iadd :: "pydict \<Rightarrow> pyobj \<Rightarrow> int \<Rightarrow> (error + unit) \<times> pydict" where
  \<comment> \<open>\<open>d[k] += n\<close> is \<open>d[k] = d[k] + n\<close>: a read, then a store.\<close>
  "dd_iadd d k n =
     (case dd_getitem d k of
        (Inl e, d1) \<Rightarrow> (Inl e, d1)
      | (Inr c, d1) \<Rightarrow> dd_setitem d1 k (c + n))"

section \<open>LoopbackGuard\<close>

record LoopbackGuard =
  locked_items :: "pydict option"

definition guard_init :: LoopbackGuard where
  "guard_init = \<lparr>locked_items = None\<rparr>"

text \<open>
  \<^verbatim>\<open>
  def __contains__(self, item):
      locked_items = self.locked_items
      if locked_items is not None:
          return item in locked_items
      return False
  \<close>
\<close>

definition guard_contains :: "LoopbackGuard \<Rightarrow> pyobj \<Rightarrow> (error + bool) \<times> LoopbackGuard" where
  "guard_contains self item =
     (case locked_items self of
        Some d \<Rightarrow>
          (case dd_contains d item of
             (r, d1) \<Rightarrow> (r, self\<lparr>locked_items := Some d1\<rparr>))
      | None \<Rightarrow> (Inr False, self))"

text \<open>
  \<open>__repr__\<close> formats the class name and the value \<open>items\<close>: \<open>None\<close>, or a plain
  \<open>dict\<close> copy of the mapping. The view below is that value; the text produced from
  it is Python's own formatting.
\<close>

datatype view = View "pydict option"

definition guard_repr :: "LoopbackGuard \<Rightarrow> view" where
  "guard_repr self =
     (case locked_items self of
        None \<Rightarrow> View None
      | Some d \<Rightarrow> View (Some d))"

text \<open>
  \<^verbatim>\<open>
  def acquire(self, items):
      locked_items = self.locked_items
      if locked_items is None:
          locked_items = self.locked_items = defaultdict(int)
      for item in items:
          locked_items[item] += 1
  \<close>
  The mapping is allocated before the loop looks at the items, and an exception in
  the loop leaves the guard with what the loop has stored so far.
\<close>

fun acquire_loop :: "pydict \<Rightarrow> pyobj list \<Rightarrow> (error + unit) \<times> pydict" where
  "acquire_loop d [] = (Inr (), d)"
| "acquire_loop d (item # items) =
     (case dd_iadd d item 1 of
        (Inl e, d1) \<Rightarrow> (Inl e, d1)
      | (Inr u, d1) \<Rightarrow> acquire_loop d1 items)"

definition acquire :: "LoopbackGuard \<Rightarrow> pyobj list \<Rightarrow> (error + unit) \<times> LoopbackGuard" where
  "acquire self items =
     (let d = (case locked_items self of None \<Rightarrow> [] | Some d \<Rightarrow> d)
      in case acquire_loop d items of
           (r, d1) \<Rightarrow> (r, self\<lparr>locked_items := Some d1\<rparr>))"

text \<open>
  \<^verbatim>\<open>
  def release(self, items):
      locked_items = self.locked_items
      if locked_items is not None:
          for item in items:
              locked_items[item] -= 1
              if locked_items[item] <= 0:
                  del locked_items[item]
          if not locked_items:
              self.locked_items = None
  \<close>
  On an idle guard the items are not looked at. An exception in the loop skips the
  final test, so the mapping stays allocated.
\<close>

definition release_item :: "pydict \<Rightarrow> pyobj \<Rightarrow> (error + unit) \<times> pydict" where
  \<comment> \<open>One pass of the loop body of \<open>release\<close>.\<close>
  "release_item d item =
     (case dd_iadd d item (- 1) of
        (Inl e, d1) \<Rightarrow> (Inl e, d1)
      | (Inr u, d1) \<Rightarrow>
          (case dd_getitem d1 item of
             (Inl e, d2) \<Rightarrow> (Inl e, d2)
           | (Inr c, d2) \<Rightarrow> if c \<le> 0 then dd_delitem d2 item else (Inr (), d2)))"

fun release_loop :: "pydict \<Rightarrow> pyobj list \<Rightarrow> (error + unit) \<times> pydict" where
  "release_loop d [] = (Inr (), d)"
| "release_loop d (item # items) =
     (case release_item d item of
        (Inl e, d1) \<Rightarrow> (Inl e, d1)
      | (Inr u, d1) \<Rightarrow> release_loop d1 items)"

definition release :: "LoopbackGuard \<Rightarrow> pyobj list \<Rightarrow> (error + unit) \<times> LoopbackGuard" where
  "release self items =
     (case locked_items self of
        None \<Rightarrow> (Inr (), self)
      | Some d \<Rightarrow>
          (case release_loop d items of
             (Inl e, d1) \<Rightarrow> (Inl e, self\<lparr>locked_items := Some d1\<rparr>)
           | (Inr u, d1) \<Rightarrow>
               if d1 = [] then (Inr (), self\<lparr>locked_items := None\<rparr>)
               else (Inr (), self\<lparr>locked_items := Some d1\<rparr>)))"

section \<open>LoopbackContext\<close>

text \<open>
  A context refers to its guard; guards live in a heap, addressed by identity, and a
  method of the context changes the heap at the address of its guard.
\<close>

type_synonym ref = nat

type_synonym heap = "ref \<Rightarrow> LoopbackGuard"

record LoopbackContext =
  ctx_guard :: ref
  ctx_items :: "pyobj list"

definition context_init :: "ref \<Rightarrow> pyobj list \<Rightarrow> LoopbackContext" where
  "context_init guard items = \<lparr>ctx_guard = guard, ctx_items = items\<rparr>"

definition guard_call :: "ref \<Rightarrow> pyobj list \<Rightarrow> heap \<Rightarrow> (error + LoopbackContext) \<times> heap" where
  "guard_call self items h = (Inr (context_init self items), h)"

definition context_enter :: "LoopbackContext \<Rightarrow> heap \<Rightarrow> (error + unit) \<times> heap" where
  "context_enter c h =
     (case acquire (h (ctx_guard c)) (ctx_items c) of
        (r, g) \<Rightarrow> (r, h(ctx_guard c := g)))"

definition context_exit :: "LoopbackContext \<Rightarrow> heap \<Rightarrow> (error + unit) \<times> heap" where
  "context_exit c h =
     (case release (h (ctx_guard c)) (ctx_items c) of
        (r, g) \<Rightarrow> (r, h(ctx_guard c := g)))"

text \<open>
  The statement \<open>with c: body\<close>. When \<open>__enter__\<close> raises, neither the body nor
  \<open>__exit__\<close> runs. Otherwise \<open>__exit__\<close> runs once, after the body has returned or
  raised; it returns \<open>None\<close>, so an exception of the body is raised again after it,
  and an exception of \<open>__exit__\<close> itself replaces the outcome of the body.
\<close>

definition with_stmt ::
  "LoopbackContext \<Rightarrow> (heap \<Rightarrow> (error + unit) \<times> heap) \<Rightarrow> heap \<Rightarrow> (error + unit) \<times> heap" where
  "with_stmt c body h =
     (case context_enter c h of
        (Inl e, h1) \<Rightarrow> (Inl e, h1)
      | (Inr u, h1) \<Rightarrow>
          (case body h1 of
             (r, h2) \<Rightarrow>
               (case context_exit c h2 of
                  (Inl e, h3) \<Rightarrow> (Inl e, h3)
                | (Inr u', h3) \<Rightarrow> (r, h3))))"

section \<open>Sequences of calls\<close>

datatype call = Acquire "pyobj list" | Release "pyobj list"

fun do_call :: "LoopbackGuard \<Rightarrow> call \<Rightarrow> (error + unit) \<times> LoopbackGuard" where
  "do_call g (Acquire items) = acquire g items"
| "do_call g (Release items) = release g items"

text \<open>Calls made one after the other; an exception ends the sequence.\<close>

fun run :: "LoopbackGuard \<Rightarrow> call list \<Rightarrow> error + LoopbackGuard" where
  "run g [] = Inr g"
| "run g (c # cs) =
     (case do_call g c of
        (Inl e, g1) \<Rightarrow> Inl e
      | (Inr u, g1) \<Rightarrow> run g1 cs)"

text \<open>The count of a key in a guard: 0 on an idle guard and for a key not stored.\<close>

definition guard_count :: "LoopbackGuard \<Rightarrow> pyobj \<Rightarrow> int" where
  "guard_count g k = (case locked_items g of None \<Rightarrow> 0 | Some d \<Rightarrow> dd_count d k)"

text \<open>The count invariant: every count stored in the mapping is at least 1.\<close>

definition positive_counts :: "pydict \<Rightarrow> bool" where
  "positive_counts d = list_all (\<lambda>(k, c). 1 \<le> c) d"

definition count_inv :: "LoopbackGuard \<Rightarrow> bool" where
  "count_inv g =
     (case locked_items g of
        None \<Rightarrow> True
      | Some d \<Rightarrow> positive_counts d)"

text \<open>A heap of freshly constructed guards.\<close>

definition fresh_heap :: heap where
  "fresh_heap r = guard_init"

section \<open>The dictionary operations on hashable and unhashable keys\<close>

lemma update_append_absent:
  "k \<notin> fst ` set d \<Longrightarrow> AList.update k v (d @ [(k, c)]) = AList.update k v d"
  by (induction d) auto

lemma dd_iadd_hashable:
  assumes that: "hashable k"
  shows "dd_iadd d k n = (Inr (), AList.update k (dd_count d k + n) d)"
proof (cases "map_of d k")
  case None
  then have "k \<notin> fst ` set d" by (simp add: map_of_eq_None_iff)
  with None show ?thesis
    using that by (simp add: dd_iadd_def dd_getitem_def dd_setitem_def dd_count_def update_append_absent)
next
  case (Some c)
  then show ?thesis
    using that by (simp add: dd_iadd_def dd_getitem_def dd_setitem_def dd_count_def)
qed

lemma dd_iadd_unhashable:
  "\<not> hashable k \<Longrightarrow> dd_iadd d k n = (Inl TypeError, d)"
  by (simp add: dd_iadd_def dd_getitem_def)

lemma release_item_hashable:
  "hashable k \<Longrightarrow> release_item d k =
     (Inr (), if dd_count d k - 1 \<le> 0 then AList.delete k d
              else AList.update k (dd_count d k - 1) d)"
  by (simp add: release_item_def dd_iadd_hashable dd_getitem_def dd_delitem_def
      AList.update_conv' AList.dom_update AList.delete_update_same)

lemma release_item_unhashable:
  "\<not> hashable k \<Longrightarrow> release_item d k = (Inl TypeError, d)"
  by (simp add: release_item_def dd_iadd_unhashable)

lemma dd_count_update:
  "dd_count (AList.update k v d) j = (if j = k then v else dd_count d j)"
  by (simp add: dd_count_def AList.update_conv')

lemma dd_count_delete:
  "dd_count (AList.delete k d) j = (if j = k then 0 else dd_count d j)"
  by (simp add: dd_count_def AList.delete_conv')

lemma positive_counts_update:
  "positive_counts d \<Longrightarrow> 1 \<le> v \<Longrightarrow> positive_counts (AList.update k v d)"
  by (induction d) (auto simp: positive_counts_def)

lemma positive_counts_delete:
  "positive_counts d \<Longrightarrow> positive_counts (AList.delete k d)"
  by (induction d) (auto simp: positive_counts_def)

lemma positive_counts_dd_count:
  "positive_counts d \<Longrightarrow> 0 \<le> dd_count d k"
  by (induction d) (auto simp: positive_counts_def dd_count_def)

lemma positive_counts_member:
  "positive_counts d \<Longrightarrow> k \<in> fst ` set d \<Longrightarrow> 1 \<le> dd_count d k"
  by (induction d) (auto simp: positive_counts_def dd_count_def)

lemma acquire_loop_hashable:
  "list_all hashable items \<Longrightarrow> fst (acquire_loop d items) = Inr ()"
  by (induction items arbitrary: d) (auto simp: dd_iadd_hashable)

lemma acquire_loop_count:
  "list_all hashable items \<Longrightarrow>
   dd_count (snd (acquire_loop d items)) k = dd_count d k + int (count_list items k)"
  by (induction items arbitrary: d) (auto simp: dd_iadd_hashable dd_count_update)

lemma acquire_loop_positive:
  "positive_counts d \<Longrightarrow> positive_counts (snd (acquire_loop d items))"
proof (induction items arbitrary: d)
  case Nil
  then show ?case by simp
next
  case (Cons item items)
  show ?case
  proof (cases "hashable item")
    case True
    have "1 \<le> dd_count d item + 1"
      using positive_counts_dd_count [OF Cons.prems, of item] by simp
    then have "positive_counts (AList.update item (dd_count d item + 1) d)"
      using Cons.prems by (rule positive_counts_update [rotated])
    then show ?thesis
      using True Cons.IH by (simp add: dd_iadd_hashable)
  next
    case False
    then show ?thesis
      using Cons.prems by (simp add: dd_iadd_unhashable)
  qed
qed

lemma acquire_loop_keeps_nonempty:
  "d \<noteq> [] \<Longrightarrow> snd (acquire_loop d items) \<noteq> []"
proof (induction items arbitrary: d)
  case Nil
  then show ?case by simp
next
  case (Cons item items)
  then show ?case
    by (cases "hashable item") (simp_all add: dd_iadd_hashable dd_iadd_unhashable)
qed

lemma acquire_loop_nonempty:
  "hashable item \<Longrightarrow> snd (acquire_loop d (item # items)) \<noteq> []"
  by (simp add: dd_iadd_hashable acquire_loop_keeps_nonempty)

lemma release_loop_hashable:
  "list_all hashable items \<Longrightarrow> fst (release_loop d items) = Inr ()"
  by (induction items arbitrary: d) (auto simp: release_item_hashable)

lemma release_loop_positive:
  "positive_counts d \<Longrightarrow> positive_counts (snd (release_loop d items))"
proof (induction items arbitrary: d)
  case Nil
  then show ?case by simp
next
  case (Cons item items)
  show ?case
  proof (cases "hashable item")
    case True
    have "positive_counts (if dd_count d item - 1 \<le> 0 then AList.delete item d
              else AList.update item (dd_count d item - 1) d)"
      using Cons.prems by (simp add: positive_counts_update positive_counts_delete)
    then show ?thesis
      using True Cons.IH by (simp add: release_item_hashable)
  next
    case False
    then show ?thesis
      using Cons.prems by (simp add: release_item_unhashable)
  qed
qed

lemma release_loop_count:
  "list_all hashable items \<Longrightarrow> positive_counts d \<Longrightarrow>
   dd_count (snd (release_loop d items)) k = max 0 (dd_count d k - int (count_list items k))"
proof (induction items arbitrary: d)
  case Nil
  then show ?case using positive_counts_dd_count [of d k] by simp
next
  case (Cons item items)
  let ?d1 = "if dd_count d item - 1 \<le> 0 then AList.delete item d
              else AList.update item (dd_count d item - 1) d"
  have p: "positive_counts ?d1"
    using Cons.prems by (simp add: positive_counts_update positive_counts_delete)
  have h: "list_all hashable items" "hashable item" using Cons.prems by simp_all
  have "dd_count (snd (release_loop ?d1 items)) k = max 0 (dd_count ?d1 k - int (count_list items k))"
    using Cons.IH [OF h(1) p] .
  moreover have "0 \<le> dd_count d k" using positive_counts_dd_count [OF Cons.prems(2)] .
  ultimately show ?case
    using h by (auto simp: release_item_hashable dd_count_update dd_count_delete)
qed

section \<open>The guard's methods: outcome, counts and the count invariant\<close>

lemma acquire_loop_unhashable:
  "\<not> list_all hashable items \<Longrightarrow> fst (acquire_loop d items) = Inl TypeError"
proof (induction items arbitrary: d)
  case Nil
  then show ?case by simp
next
  case (Cons item items)
  then show ?case
    by (cases "hashable item") (simp_all add: dd_iadd_hashable dd_iadd_unhashable)
qed

lemma acquire_eq:
  "acquire g items =
     (fst (acquire_loop (case locked_items g of None \<Rightarrow> [] | Some d \<Rightarrow> d) items),
      g\<lparr>locked_items :=
          Some (snd (acquire_loop (case locked_items g of None \<Rightarrow> [] | Some d \<Rightarrow> d) items))\<rparr>)"
  by (simp add: acquire_def Let_def case_prod_beta)

lemma release_None:
  "locked_items g = None \<Longrightarrow> release g items = (Inr (), g)"
  by (simp add: release_def)

lemma release_Some_ok:
  "locked_items g = Some d \<Longrightarrow> fst (release_loop d items) = Inr () \<Longrightarrow>
   release g items =
     (Inr (), g\<lparr>locked_items :=
                  (if snd (release_loop d items) = [] then None
                   else Some (snd (release_loop d items)))\<rparr>)"
  by (simp add: release_def case_prod_beta)

lemma release_Some_error:
  "locked_items g = Some d \<Longrightarrow> fst (release_loop d items) = Inl e \<Longrightarrow>
   release g items = (Inl e, g\<lparr>locked_items := Some (snd (release_loop d items))\<rparr>)"
  by (simp add: release_def case_prod_beta)

lemma acquire_hashable:
  "list_all hashable items \<Longrightarrow> fst (acquire g items) = Inr ()"
  by (simp add: acquire_eq acquire_loop_hashable)

lemma release_hashable:
  "list_all hashable items \<Longrightarrow> fst (release g items) = Inr ()"
  by (cases "locked_items g") (simp_all add: release_None release_Some_ok release_loop_hashable)

lemma acquire_count_inv:
  "count_inv g \<Longrightarrow> count_inv (snd (acquire g items))"
proof -
  assume g: "count_inv g"
  let ?d = "case locked_items g of None \<Rightarrow> [] | Some d \<Rightarrow> d"
  have "positive_counts ?d"
    using g by (simp add: count_inv_def positive_counts_def split: option.splits)
  then have "positive_counts (snd (acquire_loop ?d items))"
    by (rule acquire_loop_positive)
  then show ?thesis
    by (simp add: acquire_eq count_inv_def)
qed

lemma release_count_inv:
  "count_inv g \<Longrightarrow> count_inv (snd (release g items))"
proof (cases "locked_items g")
  case None
  assume "count_inv g"
  with None show ?thesis by (simp add: release_None)
next
  case (Some d)
  assume "count_inv g"
  with Some have "positive_counts d" by (simp add: count_inv_def)
  then have p: "positive_counts (snd (release_loop d items))"
    by (rule release_loop_positive)
  show ?thesis
  proof (cases "fst (release_loop d items)")
    case (Inl e)
    with Some p show ?thesis by (simp add: release_Some_error count_inv_def)
  next
    case (Inr u)
    with Some p show ?thesis by (simp add: release_Some_ok count_inv_def)
  qed
qed

lemma dd_count_Nil: "dd_count [] k = 0"
  by (simp add: dd_count_def)

lemma guard_count_acquire:
  "list_all hashable items \<Longrightarrow>
   guard_count (snd (acquire g items)) k = guard_count g k + int (count_list items k)"
  by (cases "locked_items g")
     (simp_all add: acquire_eq guard_count_def acquire_loop_count dd_count_Nil)

lemma guard_count_release:
  assumes "list_all hashable items" and "count_inv g"
  shows "guard_count (snd (release g items)) k = max 0 (guard_count g k - int (count_list items k))"
proof (cases "locked_items g")
  case None
  then show ?thesis by (simp add: release_None guard_count_def)
next
  case (Some d)
  with assms have p: "positive_counts d" by (simp add: count_inv_def)
  have c: "dd_count (snd (release_loop d items)) k = max 0 (dd_count d k - int (count_list items k))"
    using release_loop_count [OF assms(1) p] .
  have ok: "fst (release_loop d items) = Inr ()"
    using release_loop_hashable [OF assms(1)] .
  show ?thesis
  proof (cases "snd (release_loop d items) = []")
    case True
    with c have "max 0 (dd_count d k - int (count_list items k)) = 0"
      by (simp add: dd_count_def)
    with True Some ok show ?thesis
      by (simp add: release_Some_ok guard_count_def)
  next
    case False
    with Some ok c show ?thesis
      by (simp add: release_Some_ok guard_count_def)
  qed
qed

lemma positive_counts_all_zero:
  "positive_counts d \<Longrightarrow> (\<And>k. dd_count d k = 0) \<Longrightarrow> d = []"
proof (cases d)
  case Nil
  then show ?thesis by simp
next
  case (Cons p ps)
  assume pos: "positive_counts d" and z: "\<And>k. dd_count d k = 0"
  obtain k c where p: "p = (k, c)" by (cases p)
  with Cons pos have "1 \<le> c" by (simp add: positive_counts_def)
  moreover from Cons p have "dd_count d k = c" by (simp add: dd_count_def)
  ultimately show ?thesis using z [of k] by simp
qed

lemma release_not_empty_dict:
  "fst (release g items) = Inr () \<Longrightarrow> locked_items (snd (release g items)) \<noteq> Some []"
proof (cases "locked_items g")
  case None
  then show ?thesis by (simp add: release_None)
next
  case (Some d)
  assume ok: "fst (release g items) = Inr ()"
  show ?thesis
  proof (cases "fst (release_loop d items)")
    case (Inl e)
    with Some ok show ?thesis by (simp add: release_Some_error)
  next
    case (Inr u)
    with Some show ?thesis by (simp add: release_Some_ok)
  qed
qed

lemma acquire_nonempty:
  "fst (acquire g (item # items)) = Inr () \<Longrightarrow>
   \<exists>d. locked_items (snd (acquire g (item # items))) = Some d \<and> d \<noteq> []"
proof (cases "hashable item")
  case True
  then show ?thesis
    using acquire_loop_nonempty [OF True] by (simp add: acquire_eq)
next
  case False
  assume "fst (acquire g (item # items)) = Inr ()"
  with False show ?thesis by (simp add: acquire_eq dd_iadd_unhashable)
qed

section \<open>Sequences of calls on one key\<close>

lemma run_append:
  "run g (xs @ ys) = (case run g xs of Inl e \<Rightarrow> Inl e | Inr g1 \<Rightarrow> run g1 ys)"
  by (induction xs arbitrary: g) (auto split: prod.splits sum.splits)

lemma run_snoc_Inr:
  "run g (cs @ [c]) = Inr g2 \<Longrightarrow> \<exists>g1. run g cs = Inr g1 \<and> do_call g1 c = (Inr (), g2)"
  by (auto simp: run_append split: sum.splits prod.splits)

lemma do_call_count_inv:
  "count_inv g \<Longrightarrow> count_inv (snd (do_call g c))"
  by (cases c) (simp_all add: acquire_count_inv release_count_inv)

lemma run_count_inv:
  "count_inv g \<Longrightarrow> run g cs = Inr g1 \<Longrightarrow> count_inv g1"
proof (induction cs arbitrary: g)
  case Nil
  then show ?case by simp
next
  case (Cons c cs)
  obtain r g' where dc: "do_call g c = (r, g')" by (cases "do_call g c")
  with Cons.prems(2) obtain u where "r = Inr u" and "run g' cs = Inr g1"
    by (cases r) simp_all
  moreover have "count_inv g'"
    using do_call_count_inv [OF Cons.prems(1), of c] dc by simp
  ultimately show ?case using Cons.IH by blast
qed

lemma count_inv_init: "count_inv guard_init"
  by (simp add: count_inv_def guard_init_def)

lemma acquire_single:
  "hashable k \<Longrightarrow>
   acquire \<lparr>locked_items = Some [(k, c)]\<rparr> [k] = (Inr (), \<lparr>locked_items = Some [(k, c + 1)]\<rparr>)"
  by (simp add: acquire_eq dd_iadd_hashable dd_count_def)

lemma acquire_single_init:
  "hashable k \<Longrightarrow> acquire guard_init [k] = (Inr (), \<lparr>locked_items = Some [(k, 1)]\<rparr>)"
  by (simp add: acquire_eq dd_iadd_hashable dd_count_def guard_init_def)

lemma release_single:
  "hashable k \<Longrightarrow>
   release \<lparr>locked_items = Some [(k, c)]\<rparr> [k] =
     (Inr (), \<lparr>locked_items = (if c - 1 \<le> 0 then None else Some [(k, c - 1)])\<rparr>)"
  by (simp add: release_def release_item_hashable dd_count_def)

lemma run_acquire_replicate:
  "hashable k \<Longrightarrow>
   run \<lparr>locked_items = Some [(k, c)]\<rparr> (replicate n (Acquire [k])) =
     Inr \<lparr>locked_items = Some [(k, c + int n)]\<rparr>"
  by (induction n arbitrary: c) (simp_all add: acquire_single add.assoc)

lemma run_acquire_replicate_init:
  "hashable k \<Longrightarrow>
   run guard_init (replicate (Suc n) (Acquire [k])) = Inr \<lparr>locked_items = Some [(k, 1 + int n)]\<rparr>"
  by (simp add: acquire_single_init run_acquire_replicate)

lemma run_release_replicate:
  "hashable k \<Longrightarrow> int m < c \<Longrightarrow>
   run \<lparr>locked_items = Some [(k, c)]\<rparr> (replicate m (Release [k])) =
     Inr \<lparr>locked_items = Some [(k, c - int m)]\<rparr>"
proof (induction m arbitrary: c)
  case 0
  then show ?case by simp
next
  case (Suc m)
  from Suc.prems have "int m < c - 1" by simp
  from Suc.IH [OF Suc.prems(1) this] Suc.prems show ?case
    by (simp add: release_single algebra_simps)
qed

section \<open>Acquire/release symmetry\<close>

text \<open>
  C1. For every hashable key \<open>k\<close> and every \<open>n \<ge> 1\<close>: on a freshly constructed guard,
  \<open>n\<close> calls \<open>acquire([k])\<close> followed by \<open>n\<close> calls \<open>release([k])\<close> all return
  normally and leave the guard idle (\<open>locked_items\<close> is \<open>None\<close>), where \<open>k in guard\<close>
  is false. After only \<open>m < n\<close> of the releases the mapping holds \<open>k\<close> with count
  \<open>n - m\<close> and \<open>k in guard\<close> is true.
\<close>

theorem acquire_release_symmetry:
  assumes "hashable k" and "1 \<le> n" and "m < n"
  shows "run guard_init (replicate n (Acquire [k]) @ replicate n (Release [k])) = Inr guard_init
    \<and> fst (guard_contains guard_init k) = Inr False
    \<and> locked_items guard_init = None
    \<and> run guard_init (replicate n (Acquire [k]) @ replicate m (Release [k])) =
        Inr \<lparr>locked_items = Some [(k, int (n - m))]\<rparr>
    \<and> fst (guard_contains \<lparr>locked_items = Some [(k, int (n - m))]\<rparr> k) = Inr True"
proof -
  obtain n' where n: "n = Suc n'" using assms(2) by (cases n) simp_all
  have acq: "run guard_init (replicate n (Acquire [k])) = Inr \<lparr>locked_items = Some [(k, int n)]\<rparr>"
    using run_acquire_replicate_init [OF assms(1), of n'] n by (simp add: add.commute)
  have "int m < int n" using assms(3) by simp
  then have "run \<lparr>locked_items = Some [(k, int n)]\<rparr> (replicate m (Release [k])) =
      Inr \<lparr>locked_items = Some [(k, int n - int m)]\<rparr>"
    by (rule run_release_replicate [OF assms(1)])
  moreover have "int n - int m = int (n - m)" using assms(3) by simp
  ultimately have part: "run \<lparr>locked_items = Some [(k, int n)]\<rparr> (replicate m (Release [k])) =
      Inr \<lparr>locked_items = Some [(k, int (n - m))]\<rparr>"
    by (simp only:)
  have "int n' < int n" using n by simp
  then have "run \<lparr>locked_items = Some [(k, int n)]\<rparr> (replicate n' (Release [k])) =
      Inr \<lparr>locked_items = Some [(k, int n - int n')]\<rparr>"
    by (rule run_release_replicate [OF assms(1)])
  moreover have "int n - int n' = 1" using n by simp
  ultimately have "run \<lparr>locked_items = Some [(k, int n)]\<rparr> (replicate n' (Release [k])) =
      Inr \<lparr>locked_items = Some [(k, 1)]\<rparr>"
    by (simp only:)
  then have "run \<lparr>locked_items = Some [(k, int n)]\<rparr> (replicate n' (Release [k]) @ [Release [k]]) =
      Inr guard_init"
    using assms(1) by (simp add: run_append release_single guard_init_def)
  moreover have "replicate n (Release [k]) = replicate n' (Release [k]) @ [Release [k]]"
    using n by (simp add: replicate_append_same)
  ultimately have full: "run \<lparr>locked_items = Some [(k, int n)]\<rparr> (replicate n (Release [k])) =
      Inr guard_init" by simp
  have "fst (guard_contains guard_init k) = Inr False"
    by (simp add: guard_contains_def guard_init_def)
  moreover have "fst (guard_contains \<lparr>locked_items = Some [(k, int (n - m))]\<rparr> k) = Inr True"
    using assms(1) by (simp add: guard_contains_def dd_contains_def)
  moreover have "locked_items guard_init = None"
    by (simp add: guard_init_def)
  ultimately show ?thesis
    using acq part full by (simp add: run_append)
qed

theorem acquire_release_symmetry_witness:
  "run guard_init [Acquire [PyStr ''x''], Acquire [PyStr ''x''],
                   Release [PyStr ''x''], Release [PyStr ''x'']] = Inr guard_init
   \<and> run guard_init [Acquire [PyStr ''x''], Acquire [PyStr ''x''], Release [PyStr ''x'']] =
        Inr \<lparr>locked_items = Some [(PyStr ''x'', 1)]\<rparr>
   \<and> fst (guard_contains \<lparr>locked_items = Some [(PyStr ''x'', 1)]\<rparr> (PyStr ''x'')) = Inr True"
proof -
  have h1: "hashable (PyStr ''x'')" by simp
  have h2: "(1::nat) \<le> 2" by simp
  have h3: "(1::nat) < 2" by simp
  have r: "replicate 2 (Acquire [PyStr ''x'']) = [Acquire [PyStr ''x''], Acquire [PyStr ''x'']]"
    "replicate 2 (Release [PyStr ''x'']) = [Release [PyStr ''x''], Release [PyStr ''x'']]"
    "replicate 1 (Release [PyStr ''x'']) = [Release [PyStr ''x'']]"
    by (simp_all add: numeral_2_eq_2)
  show ?thesis
    using acquire_release_symmetry [OF h1 h2 h3] unfolding r by simp
qed

section \<open>Returning to the idle state\<close>

lemma guard_idle_eq: "locked_items g = None \<Longrightarrow> g = guard_init"
  by (cases g) (simp add: guard_init_def)

lemma guard_all_zero_idle:
  assumes "count_inv g" and "\<And>k. guard_count g k = 0" and "locked_items g \<noteq> Some []"
  shows "g = guard_init"
proof (cases "locked_items g")
  case None
  then show ?thesis by (rule guard_idle_eq)
next
  case (Some d)
  with assms(1) have "positive_counts d" by (simp add: count_inv_def)
  moreover have "\<And>k. dd_count d k = 0"
    using assms(2) Some by (simp add: guard_count_def)
  ultimately have "d = []" by (rule positive_counts_all_zero)
  with Some assms(3) show ?thesis by simp
qed

lemma acquire_release_idle:
  assumes "list_all hashable items"
  shows "release (snd (acquire guard_init items)) items = (Inr (), guard_init)"
proof -
  let ?g1 = "snd (acquire guard_init items)"
  let ?g2 = "snd (release ?g1 items)"
  have inv1: "count_inv ?g1" by (rule acquire_count_inv [OF count_inv_init])
  then have inv2: "count_inv ?g2" by (rule release_count_inv)
  have ok: "fst (release ?g1 items) = Inr ()" by (rule release_hashable [OF assms])
  have "guard_count guard_init k = 0" for k
    by (simp add: guard_count_def guard_init_def)
  then have zero: "\<And>k. guard_count ?g2 k = 0"
    by (simp add: guard_count_release [OF assms inv1] guard_count_acquire [OF assms])
  have "?g2 = guard_init"
    using inv2 zero release_not_empty_dict [OF ok] by (rule guard_all_zero_idle)
  with ok show ?thesis by (simp add: prod_eq_iff)
qed

section \<open>Scoped acquisition\<close>

text \<open>
  C2. A scope made for the hashable keys \<open>k1\<close> and \<open>k2\<close> is entered without error in
  every state of its guard, and however the bracketed block ends (its outcome \<open>r\<close> is a
  normal return or an exception), the only thing done on exit is one call of \<open>release\<close>
  on the guard of the scope with the same two items; the outcome of the block is the
  outcome of the whole statement. When the guard was idle before and the block leaves
  the guard as it found it, the guard is idle afterwards: \<open>k1 in guard\<close> and
  \<open>k2 in guard\<close> are both false.
\<close>

theorem scoped_cleanup:
  assumes "hashable k1" and "hashable k2"
    and "fst (guard_call self [k1, k2] h) = Inr c"
    and "body (snd (context_enter c h)) = (r, h')"
  shows "fst (context_enter c h) = Inr ()
    \<and> with_stmt c body h = (r, h'(self := snd (release (h' self) [k1, k2])))
    \<and> (h self = guard_init \<and> h' self = snd (context_enter c h) self \<longrightarrow>
         snd (with_stmt c body h) self = guard_init
         \<and> fst (guard_contains (snd (with_stmt c body h) self) k1) = Inr False
         \<and> fst (guard_contains (snd (with_stmt c body h) self) k2) = Inr False)"
proof -
  have c: "c = \<lparr>ctx_guard = self, ctx_items = [k1, k2]\<rparr>"
    using assms(3) by (simp add: guard_call_def context_init_def)
  have items: "list_all hashable [k1, k2]" using assms(1,2) by simp
  have enter: "context_enter c h =
      (Inr (), h(self := snd (acquire (h self) [k1, k2])))"
    using acquire_hashable [OF items, of "h self"]
    by (simp add: context_enter_def c case_prod_beta)
  have exit: "context_exit c h' = (Inr (), h'(self := snd (release (h' self) [k1, k2])))"
    using release_hashable [OF items, of "h' self"]
    by (simp add: context_exit_def c case_prod_beta)
  have w: "with_stmt c body h = (r, h'(self := snd (release (h' self) [k1, k2])))"
    using assms(4) by (simp add: with_stmt_def enter exit)
  have idle: "snd (with_stmt c body h) self = guard_init"
    if "h self = guard_init" and "h' self = snd (context_enter c h) self"
    using that acquire_release_idle [OF items] by (simp add: w enter)
  have "fst (guard_contains guard_init k) = Inr False" for k
    by (simp add: guard_contains_def guard_init_def)
  with idle w enter show ?thesis by simp
qed

theorem scoped_cleanup_witness:
  "fst (with_stmt (context_init 0 [PyStr ''x'', PyStr ''y''])
          (Pair (Inl (Raised ''boom''))) fresh_heap) = Inl (Raised ''boom'')
   \<and> snd (with_stmt (context_init 0 [PyStr ''x'', PyStr ''y''])
          (Pair (Inl (Raised ''boom''))) fresh_heap) 0 = guard_init
   \<and> fst (guard_contains (snd (with_stmt (context_init 0 [PyStr ''x'', PyStr ''y''])
          (Pair (Inl (Raised ''boom''))) fresh_heap) 0) (PyStr ''x'')) = Inr False
   \<and> fst (guard_contains (snd (with_stmt (context_init 0 [PyStr ''x'', PyStr ''y''])
          (Pair (Inl (Raised ''boom''))) fresh_heap) 0) (PyStr ''y'')) = Inr False"
proof -
  let ?c = "context_init 0 [PyStr ''x'', PyStr ''y'']"
  let ?body = "Pair (Inl (Raised ''boom'')) :: heap \<Rightarrow> (error + unit) \<times> heap"
  have h1: "hashable (PyStr ''x'')" and h2: "hashable (PyStr ''y'')" by simp_all
  have h3: "fst (guard_call 0 [PyStr ''x'', PyStr ''y''] fresh_heap) = Inr ?c"
    by (simp add: guard_call_def)
  have h4: "?body (snd (context_enter ?c fresh_heap)) =
      (Inl (Raised ''boom''), snd (context_enter ?c fresh_heap))"
    by simp
  have idle: "fresh_heap 0 = guard_init" by (simp add: fresh_heap_def)
  note t = scoped_cleanup [where body = ?body, OF h1 h2 h3 h4]
  from t have w: "with_stmt ?c ?body fresh_heap =
      (Inl (Raised ''boom''), (snd (context_enter ?c fresh_heap))
         (0 := snd (release (snd (context_enter ?c fresh_heap) 0) [PyStr ''x'', PyStr ''y''])))"
    by (rule conjunct2 [THEN conjunct1])
  from t idle have "snd (with_stmt ?c ?body fresh_heap) 0 = guard_init
     \<and> fst (guard_contains (snd (with_stmt ?c ?body fresh_heap) 0) (PyStr ''x'')) = Inr False
     \<and> fst (guard_contains (snd (with_stmt ?c ?body fresh_heap) 0) (PyStr ''y'')) = Inr False"
    by blast
  moreover from w have "fst (with_stmt ?c ?body fresh_heap) = Inl (Raised ''boom'')"
    by (simp only: fst_conv)
  ultimately show ?thesis by blast
qed

section \<open>Idle collapse\<close>

text \<open>
  C3 (as stated, refuted). The single call \<open>acquire([])\<close> on a fresh guard locks nothing,
  so every key has the count it has in a fresh guard, yet it allocates the mapping:
  \<open>locked_items\<close> is an empty dictionary, not \<open>None\<close>, and the diagnostic view differs
  from the view of a fresh guard.
\<close>

theorem idle_collapse_counterexample:
  "run guard_init [Acquire []] = Inr \<lparr>locked_items = Some []\<rparr>
   \<and> guard_count \<lparr>locked_items = Some []\<rparr> = guard_count guard_init
   \<and> guard_repr \<lparr>locked_items = Some []\<rparr> \<noteq> guard_repr guard_init"
  by (simp add: acquire_def guard_init_def guard_repr_def guard_count_def dd_count_def fun_eq_iff)

text \<open>
  C3 (amended). After any sequence of \<open>acquire\<close> and \<open>release\<close> calls on a fresh guard
  that all return normally, that brings every key's count back to zero and that does
  not end with an \<open>acquire\<close> of the empty sequence, the guard is in the freshly
  constructed state: \<open>locked_items\<close> is \<open>None\<close> and the diagnostic view is the view of
  a fresh guard.
\<close>

theorem idle_collapse:
  assumes "run guard_init cs = Inr g"
    and "\<forall>k. guard_count g k = 0"
    and "cs = [] \<or> last cs \<noteq> Acquire []"
  shows "g = guard_init \<and> locked_items g = None \<and> guard_repr g = guard_repr guard_init"
proof -
  have inv: "count_inv g"
    using count_inv_init assms(1) by (rule run_count_inv)
  have zero: "\<And>k. guard_count g k = 0" using assms(2) by simp
  have "locked_items g \<noteq> Some []"
  proof (cases "cs = []")
    case True
    with assms(1) have "g = guard_init" by simp
    then show ?thesis by (simp add: guard_init_def)
  next
    case False
    then have cs: "cs = butlast cs @ [last cs]" by simp
    with assms(1) have "run guard_init (butlast cs @ [last cs]) = Inr g" by simp
    then obtain g1 where step: "do_call g1 (last cs) = (Inr (), g)"
      using run_snoc_Inr by blast
    show ?thesis
    proof (cases "last cs")
      case (Release items)
      with step have "release g1 items = (Inr (), g)" by simp
      then have "fst (release g1 items) = Inr ()" and "snd (release g1 items) = g"
        by simp_all
      then show ?thesis using release_not_empty_dict by blast
    next
      case (Acquire items)
      with False assms(3) obtain item items' where items: "items = item # items'"
        by (cases items) simp_all
      from step Acquire items have "acquire g1 (item # items') = (Inr (), g)" by simp
      then have "fst (acquire g1 (item # items')) = Inr ()"
        and "snd (acquire g1 (item # items')) = g"
        by simp_all
      then show ?thesis using acquire_nonempty by fastforce
    qed
  qed
  with inv zero have "g = guard_init" by (rule guard_all_zero_idle)
  then show ?thesis by (simp add: guard_init_def)
qed

theorem idle_collapse_witness:
  "run guard_init [Acquire [PyStr ''x''], Acquire [PyStr ''x'', PyInt 1],
                   Release [PyInt 1, PyStr ''x''], Release [PyStr ''x'']] = Inr guard_init
   \<and> guard_count guard_init (PyStr ''x'') = 0
   \<and> locked_items guard_init = None
   \<and> guard_repr guard_init = View None"
proof -
  let ?cs = "[Acquire [PyStr ''x''], Acquire [PyStr ''x'', PyInt 1],
              Release [PyInt 1, PyStr ''x''], Release [PyStr ''x'']]"
  have h1: "run guard_init ?cs = Inr guard_init"
    by (simp add: acquire_eq release_def dd_iadd_hashable release_item_hashable
        dd_count_def guard_init_def)
  have h2: "\<forall>k. guard_count guard_init k = 0"
    by (simp add: guard_count_def guard_init_def)
  have h3: "?cs = [] \<or> last ?cs \<noteq> Acquire []" by simp
  show ?thesis
    using idle_collapse [OF h1 h2 h3] h1 h2 by (simp add: guard_init_def guard_repr_def)
qed

section \<open>Over-release and the count invariant\<close>

text \<open>
  C4. In a state that satisfies the count invariant, \<open>release([k])\<close> for a hashable
  key \<open>k\<close> with no outstanding acquisition returns normally and changes the count of no
  key: the mapping is left as it was, except that an allocated empty mapping is reset
  to \<open>None\<close>. A release of a hashable key removes one layer, stopping at zero. The
  count invariant holds again after every \<open>acquire\<close> and every \<open>release\<close>, whatever the
  items and whether the call returns or raises.
\<close>

theorem over_release_lenient:
  assumes "count_inv g" and "hashable k" and "guard_count g k = 0"
  shows "fst (release g [k]) = Inr ()
    \<and> locked_items (snd (release g [k])) =
        (if locked_items g = Some [] then None else locked_items g)
    \<and> guard_count (snd (release g [k])) j = guard_count g j
    \<and> (hashable k' \<longrightarrow>
         guard_count (snd (release g [k'])) k' = max 0 (guard_count g k' - 1))
    \<and> count_inv (snd (acquire g items))
    \<and> count_inv (snd (release g items))"
proof -
  have layer: "guard_count (snd (release g [k'])) k' = max 0 (guard_count g k' - 1)"
    if "hashable k'"
    using guard_count_release [of "[k']" g k'] that assms(1) by simp
  have rel: "release g [k] =
      (Inr (), g\<lparr>locked_items := (if locked_items g = Some [] then None else locked_items g)\<rparr>)"
  proof (cases "locked_items g")
    case None
    then show ?thesis by (cases g) (simp add: release_def)
  next
    case (Some d)
    with assms(1) have p: "positive_counts d" by (simp add: count_inv_def)
    from Some assms(3) have z: "dd_count d k = 0" by (simp add: guard_count_def)
    have "k \<notin> fst ` set d"
      using positive_counts_member [OF p, of k] z by auto
    then have "release_item d k = (Inr (), d)"
      using assms(2) z by (simp add: release_item_hashable)
    with Some show ?thesis by (cases g) (simp add: release_def)
  qed
  have cnt: "guard_count (snd (release g [k])) j = guard_count g j"
    by (simp add: rel guard_count_def dd_count_def)
  from rel layer cnt acquire_count_inv [OF assms(1)] release_count_inv [OF assms(1)]
  show ?thesis by simp
qed

theorem over_release_lenient_witness:
  "fst (release \<lparr>locked_items = Some [(PyStr ''a'', 2)]\<rparr> [PyStr ''b'']) = Inr ()
   \<and> locked_items (snd (release \<lparr>locked_items = Some [(PyStr ''a'', 2)]\<rparr> [PyStr ''b''])) =
       Some [(PyStr ''a'', 2)]
   \<and> guard_count (snd (release \<lparr>locked_items = Some [(PyStr ''a'', 2)]\<rparr> [PyStr ''a''])) (PyStr ''a'') = 1
   \<and> count_inv (snd (acquire \<lparr>locked_items = Some [(PyStr ''a'', 2)]\<rparr> [PyStr ''b'', PyList []]))
   \<and> count_inv (snd (release \<lparr>locked_items = Some [(PyStr ''a'', 2)]\<rparr> [PyStr ''a'', PyList []]))"
proof -
  let ?g = "\<lparr>locked_items = Some [(PyStr ''a'', 2)]\<rparr>"
  have h1: "count_inv ?g" by (simp add: count_inv_def positive_counts_def)
  have h2: "hashable (PyStr ''b'')" by simp
  have h3: "guard_count ?g (PyStr ''b'') = 0" by (simp add: guard_count_def dd_count_def)
  have h4: "hashable (PyStr ''a'')" by simp
  have c: "guard_count ?g (PyStr ''a'') = 2" by (simp add: guard_count_def dd_count_def)
  note t = over_release_lenient [OF h1 h2 h3, of "PyStr ''a''" "PyStr ''a''"]
  from t [of "[PyStr ''b'', PyList []]"] t [of "[PyStr ''a'', PyList []]"] h4 c
  show ?thesis by simp
qed

section \<open>Duplicate keys, containment and independence of keys\<close>

text \<open>
  C5. For every hashable key \<open>k\<close>, on an idle guard: \<open>acquire([k, k])\<close> counts each
  occurrence (the count of \<open>k\<close> is 2); after one \<open>release([k])\<close> the key is still held
  and \<open>k in guard\<close> is true; after a second \<open>release([k])\<close> the guard is idle and
  \<open>k in guard\<close> is false.
\<close>

theorem duplicate_keys_counted:
  assumes "hashable k"
  shows "acquire guard_init [k, k] = (Inr (), \<lparr>locked_items = Some [(k, 2)]\<rparr>)
    \<and> run guard_init [Acquire [k, k], Release [k]] = Inr \<lparr>locked_items = Some [(k, 1)]\<rparr>
    \<and> fst (guard_contains \<lparr>locked_items = Some [(k, 1)]\<rparr> k) = Inr True
    \<and> run guard_init [Acquire [k, k], Release [k], Release [k]] = Inr guard_init
    \<and> fst (guard_contains guard_init k) = Inr False"
proof -
  have a: "acquire guard_init [k, k] = (Inr (), \<lparr>locked_items = Some [(k, 2)]\<rparr>)"
    using assms by (simp add: acquire_eq dd_iadd_hashable dd_count_def guard_init_def)
  have r1: "release \<lparr>locked_items = Some [(k, 2)]\<rparr> [k] = (Inr (), \<lparr>locked_items = Some [(k, 1)]\<rparr>)"
    using assms by (simp add: release_single)
  have r2: "release \<lparr>locked_items = Some [(k, 1)]\<rparr> [k] = (Inr (), guard_init)"
    using assms by (simp add: release_single guard_init_def)
  have c1: "fst (guard_contains \<lparr>locked_items = Some [(k, 1)]\<rparr> k) = Inr True"
    using assms by (simp add: guard_contains_def dd_contains_def)
  have c2: "fst (guard_contains guard_init k) = Inr False"
    by (simp add: guard_contains_def guard_init_def)
  from a r1 r2 c1 c2 show ?thesis by simp
qed

theorem duplicate_keys_counted_witness:
  "run guard_init [Acquire [PyInt 7, PyInt 7], Release [PyInt 7]] =
     Inr \<lparr>locked_items = Some [(PyInt 7, 1)]\<rparr>
   \<and> fst (guard_contains \<lparr>locked_items = Some [(PyInt 7, 1)]\<rparr> (PyInt 7)) = Inr True
   \<and> run guard_init [Acquire [PyInt 7, PyInt 7], Release [PyInt 7], Release [PyInt 7]] =
     Inr guard_init
   \<and> fst (guard_contains guard_init (PyInt 7)) = Inr False"
proof -
  have h: "hashable (PyInt 7)" by simp
  show ?thesis using duplicate_keys_counted [OF h] by blast
qed

text \<open>
  C6. In every state that satisfies the count invariant and for every hashable key,
  \<open>item in guard\<close> is true exactly when the mapping is allocated and holds the item
  with a count of at least 1. On a freshly constructed guard the query is false for
  every item, and the diagnostic view shows \<open>None\<close>: nothing is locked.
\<close>

theorem contains_iff_locked:
  assumes "count_inv g" and "hashable k"
  shows "fst (guard_contains g k) =
      Inr (case locked_items g of
             None \<Rightarrow> False
           | Some d \<Rightarrow> (case map_of d k of None \<Rightarrow> False | Some c \<Rightarrow> 1 \<le> c))
    \<and> fst (guard_contains guard_init item) = Inr False
    \<and> guard_repr guard_init = View None"
proof -
  have fresh: "fst (guard_contains guard_init item) = Inr False"
    "guard_repr guard_init = View None"
    by (simp_all add: guard_contains_def guard_repr_def guard_init_def)
  have "fst (guard_contains g k) =
      Inr (case locked_items g of
             None \<Rightarrow> False
           | Some d \<Rightarrow> (case map_of d k of None \<Rightarrow> False | Some c \<Rightarrow> 1 \<le> c))"
  proof (cases "locked_items g")
    case None
    then show ?thesis by (simp add: guard_contains_def)
  next
    case (Some d)
    with assms(1) have p: "positive_counts d" by (simp add: count_inv_def)
    show ?thesis
    proof (cases "map_of d k")
      case None
      then have "k \<notin> fst ` set d" by (simp add: map_of_eq_None_iff)
      with None Some assms(2) show ?thesis
        by (simp add: guard_contains_def dd_contains_def)
    next
      case (Some c)
      then have m: "k \<in> fst ` set d" by (metis map_of_eq_None_iff option.distinct(1))
      from Some have "dd_count d k = c" by (simp add: dd_count_def)
      with positive_counts_member [OF p m] have "1 \<le> c" by simp
      with Some m \<open>locked_items g = Some d\<close> assms(2) show ?thesis
        by (simp add: guard_contains_def dd_contains_def)
    qed
  qed
  with fresh show ?thesis by simp
qed

theorem contains_iff_locked_witness:
  "fst (guard_contains \<lparr>locked_items = Some [(PyStr ''value'', 2)]\<rparr> (PyStr ''value'')) = Inr True
   \<and> fst (guard_contains \<lparr>locked_items = Some [(PyStr ''value'', 2)]\<rparr> (PyStr ''text'')) = Inr False
   \<and> fst (guard_contains guard_init (PyList [])) = Inr False
   \<and> guard_repr guard_init = View None"
proof -
  let ?g = "\<lparr>locked_items = Some [(PyStr ''value'', 2)]\<rparr>"
  have h1: "count_inv ?g" by (simp add: count_inv_def positive_counts_def)
  have h2: "hashable (PyStr ''value'')" and h3: "hashable (PyStr ''text'')" by simp_all
  show ?thesis
    using contains_iff_locked [OF h1 h2, of "PyList []"] contains_iff_locked [OF h1 h3, of "PyList []"]
    by simp
qed

text \<open>
  C7. For distinct hashable keys \<open>a\<close> and \<open>b\<close>, on an idle guard: after
  \<open>acquire([a, b])\<close> and \<open>release([a])\<close> the mapping holds \<open>b\<close> alone, \<open>a in guard\<close> is
  false and \<open>b in guard\<close> is true. In every state \<open>g\<close>, \<open>release([a])\<close> leaves the count
  of every other key \<open>j\<close> unchanged.
\<close>

theorem multi_key_independence:
  assumes "hashable a" and "hashable b" and "a \<noteq> b" and "j \<noteq> a"
  shows "run guard_init [Acquire [a, b], Release [a]] = Inr \<lparr>locked_items = Some [(b, 1)]\<rparr>
    \<and> fst (guard_contains \<lparr>locked_items = Some [(b, 1)]\<rparr> a) = Inr False
    \<and> fst (guard_contains \<lparr>locked_items = Some [(b, 1)]\<rparr> b) = Inr True
    \<and> guard_count (snd (release g [a])) j = guard_count g j"
proof -
  have acq: "acquire guard_init [a, b] = (Inr (), \<lparr>locked_items = Some [(a, 1), (b, 1)]\<rparr>)"
    using assms(1-3) by (simp add: acquire_eq dd_iadd_hashable dd_count_def guard_init_def)
  have rel: "release \<lparr>locked_items = Some [(a, 1), (b, 1)]\<rparr> [a] =
      (Inr (), \<lparr>locked_items = Some [(b, 1)]\<rparr>)"
    using assms(1-3) by (simp add: release_def release_item_hashable dd_count_def)
  have c: "fst (guard_contains \<lparr>locked_items = Some [(b, 1)]\<rparr> a) = Inr False"
    "fst (guard_contains \<lparr>locked_items = Some [(b, 1)]\<rparr> b) = Inr True"
    using assms(1-3) by (simp_all add: guard_contains_def dd_contains_def)
  have frame: "guard_count (snd (release g [a])) j = guard_count g j"
  proof (cases "locked_items g")
    case None
    then show ?thesis by (simp add: release_None)
  next
    case (Some d)
    let ?d1 = "if dd_count d a - 1 \<le> 0 then AList.delete a d
               else AList.update a (dd_count d a - 1) d"
    have d1: "dd_count ?d1 j = dd_count d j"
      using assms(4) by (simp add: dd_count_update dd_count_delete)
    show ?thesis
    proof (cases "hashable a")
      case True
      then have ri: "release_item d a = (Inr (), ?d1)" by (rule release_item_hashable)
      show ?thesis
      proof (cases "?d1 = []")
        case True
        with d1 have "dd_count d j = 0" by (simp add: dd_count_Nil)
        with True ri Some show ?thesis by (simp add: release_def guard_count_def)
      next
        case False
        with ri Some d1 show ?thesis by (simp add: release_def guard_count_def)
      qed
    next
      case False
      with Some show ?thesis
        by (simp add: release_def release_item_unhashable guard_count_def)
    qed
  qed
  from acq rel c frame show ?thesis by simp
qed

theorem multi_key_independence_witness:
  "run guard_init [Acquire [PyStr ''a'', PyStr ''b''], Release [PyStr ''a'']] =
     Inr \<lparr>locked_items = Some [(PyStr ''b'', 1)]\<rparr>
   \<and> fst (guard_contains \<lparr>locked_items = Some [(PyStr ''b'', 1)]\<rparr> (PyStr ''a'')) = Inr False
   \<and> fst (guard_contains \<lparr>locked_items = Some [(PyStr ''b'', 1)]\<rparr> (PyStr ''b'')) = Inr True
   \<and> guard_count (snd (release \<lparr>locked_items = Some [(PyStr ''a'', 1), (PyStr ''b'', 3)]\<rparr>
        [PyStr ''a''])) (PyStr ''b'') = 3"
proof -
  have h1: "hashable (PyStr ''a'')" and h2: "hashable (PyStr ''b'')" by simp_all
  have h3: "PyStr ''a'' \<noteq> PyStr ''b''" and h4: "PyStr ''b'' \<noteq> PyStr ''a''" by simp_all
  have c: "guard_count \<lparr>locked_items = Some [(PyStr ''a'', 1), (PyStr ''b'', 3)]\<rparr> (PyStr ''b'') = 3"
    by (simp add: guard_count_def dd_count_def)
  show ?thesis
    using multi_key_independence [OF h1 h2 h3 h4,
        of "\<lparr>locked_items = Some [(PyStr ''a'', 1), (PyStr ''b'', 3)]\<rparr>"] c
    by simp
qed

section \<open>Invalid keys and the scope factory\<close>

text \<open>
  C8 (as stated, refuted). Calling the guard with an unhashable item, here the empty
  list, raises nothing: the call returns a context that holds the item and leaves the
  heap as it was.
\<close>

theorem invalid_key_counterexample:
  "\<not> hashable (PyList [])
   \<and> guard_call 0 [PyList []] fresh_heap = (Inr (context_init 0 [PyList []]), fresh_heap)"
  by (simp add: guard_call_def)

text \<open>
  C8 (amended). For every item sequence that contains an unhashable key, \<open>acquire\<close>
  raises \<open>TypeError\<close>, in every state of the guard. Calling the guard with such a
  sequence does not raise: it returns the context and changes nothing. The error
  surfaces when the scope is entered: \<open>__enter__\<close> raises \<open>TypeError\<close>, and a \<open>with\<close>
  statement on the context raises it without running its block or \<open>__exit__\<close>.
\<close>

theorem invalid_key_surfaces:
  assumes "\<not> list_all hashable items"
  shows "fst (acquire g items) = Inl TypeError
    \<and> guard_call self items h = (Inr (context_init self items), h)
    \<and> fst (context_enter (context_init self items) h) = Inl TypeError
    \<and> with_stmt (context_init self items) body h =
        (Inl TypeError, h(self := snd (acquire (h self) items)))"
proof -
  have a: "fst (acquire g items) = Inl TypeError" for g
    using assms by (simp add: acquire_eq acquire_loop_unhashable)
  have e: "context_enter (context_init self items) h =
      (Inl TypeError, h(self := snd (acquire (h self) items)))"
    using a [of "h self"] by (simp add: context_enter_def context_init_def case_prod_beta)
  from a e show ?thesis by (simp add: guard_call_def with_stmt_def)
qed

theorem invalid_key_surfaces_witness:
  "fst (acquire guard_init [PyStr ''x'', PyList []]) = Inl TypeError
   \<and> guard_call 0 [PyStr ''x'', PyList []] fresh_heap =
       (Inr (context_init 0 [PyStr ''x'', PyList []]), fresh_heap)
   \<and> fst (context_enter (context_init 0 [PyStr ''x'', PyList []]) fresh_heap) = Inl TypeError"
proof -
  have h: "\<not> list_all hashable [PyStr ''x'', PyList []]" by simp
  show ?thesis using invalid_key_surfaces [OF h] by blast
qed

text \<open>
  C9. Calling the guard with any item sequence, the empty one included, never raises
  and leaves the heap, and with it the state and the diagnostic view of the guard,
  unchanged. The context it returns holds the guard and the items as given, in order
  and with their repetitions; \<open>__enter__\<close> passes exactly these items to \<open>acquire\<close>
  and \<open>__exit__\<close> passes exactly these items to \<open>release\<close>, on that guard.
\<close>

theorem make_scope_records_items:
  "guard_call self items h = (Inr \<lparr>ctx_guard = self, ctx_items = items\<rparr>, h)
   \<and> locked_items (snd (guard_call self items h) self) = locked_items (h self)
   \<and> guard_repr (snd (guard_call self items h) self) = guard_repr (h self)
   \<and> context_enter \<lparr>ctx_guard = self, ctx_items = items\<rparr> h1 =
       (fst (acquire (h1 self) items), h1(self := snd (acquire (h1 self) items)))
   \<and> context_exit \<lparr>ctx_guard = self, ctx_items = items\<rparr> h2 =
       (fst (release (h2 self) items), h2(self := snd (release (h2 self) items)))"
  by (simp add: guard_call_def context_init_def context_enter_def context_exit_def
      case_prod_beta)

section \<open>The containment query has no effect\<close>

text \<open>
  C10. In every state and for every item, hashable or not, whether the query returns
  or raises: \<open>item in guard\<close> leaves the guard as it was. No entry is stored for an
  absent key, the mapping is not allocated, and the diagnostic view is the same.
\<close>

theorem contains_leaves_state:
  "snd (guard_contains g item) = g
   \<and> locked_items (snd (guard_contains g item)) = locked_items g
   \<and> guard_repr (snd (guard_contains g item)) = guard_repr g"
proof -
  have "snd (guard_contains g item) = g"
  proof (cases "locked_items g")
    case None
    then show ?thesis by (simp add: guard_contains_def)
  next
    case (Some d)
    then have "g\<lparr>locked_items := Some d\<rparr> = g" by (cases g) simp
    with Some show ?thesis by (simp add: guard_contains_def dd_contains_def)
  qed
  then show ?thesis by simp
qed

end
